theory Spec2Isabelle
  imports Main "HOL-Library.Sublist"
begin

section \<open>Data model of app.go\<close>

text \<open>
  \<^verbatim>\<open>type Error struct { Code int; Message string }\<close>.  Go's \<^verbatim>\<open>int\<close> is modelled by
  \<^typ>\<open>int\<close>: no arithmetic is done on status codes.
\<close>

record Error =
  Code :: int
  Message :: string

text \<open>
  A value of Go's interface type \<^verbatim>\<open>error\<close>, as far as app.go can tell values apart:
  the nil interface, a \<^verbatim>\<open>*Error\<close> (a pointer that may itself be nil), or a value of any
  other dynamic type, of which only the text returned by \<^verbatim>\<open>Error()\<close> is observed.
\<close>

datatype go_error =
    NilError
  | ErrorPtr "Error option"
  | OtherError string

text \<open>A run-time panic (nil dereference) and \<^verbatim>\<open>log.Fatalf\<close> (print, then exit the process).\<close>

datatype panic = NilDereference

datatype fatal = Fatal string

text \<open>
  Modelled from the spec: the per-request context \<^verbatim>\<open>Ctx\<close> is declared outside app.go.
  app.go itself only assigns the field \<^verbatim>\<open>err\<close> and calls \<^verbatim>\<open>Set\<close>, \<^verbatim>\<open>Status\<close> and
  \<^verbatim>\<open>SendString\<close>; the other fields are those of the spec's Request Context (request,
  response builder, params, cursor).
\<close>

record Ctx =
  req_method :: string
  req_path :: string
  status :: int
  headers :: "string \<rightharpoonup> string"
  body :: string
  params :: "string \<rightharpoonup> string"
  cursor :: nat
  err :: go_error

text \<open>
  \<^verbatim>\<open>type Handler = func(*Ctx)\<close>.  Modelled from the spec: what a handler does to the chain
  is one of the three outcomes of section 4.3; it returns the context it has mutated and
  whether it invoked the continuation, and it signals failure through the error slot.
\<close>

datatype handler_exit = Returned | CalledNext

type_synonym Handler = "Ctx \<Rightarrow> Ctx \<times> handler_exit"

text \<open>
  Modelled from the spec: the type \<^verbatim>\<open>Route\<close> is declared outside app.go.  The fields are
  the ones app.go reads (\<^verbatim>\<open>pos\<close>, \<^verbatim>\<open>Method\<close>, \<^verbatim>\<open>Name\<close>, \<^verbatim>\<open>Path\<close>) and the handler chain
  of the spec's Route.
\<close>

record Route =
  pos :: int
  Path :: string
  Method :: string
  Name :: string
  Handlers :: "Handler list"

text \<open>The fields of \<^verbatim>\<open>Settings\<close> that \<^verbatim>\<open>New\<close> reads or writes.\<close>

record Settings =
  ErrorHandler :: "(Ctx \<Rightarrow> go_error \<Rightarrow> panic + Ctx) option"
  Prefork :: bool
  BodyLimit :: int
  Concurrency :: int
  ReadBufferSize :: int
  WriteBufferSize :: int
  CompressedFileSuffix :: string

text \<open>
  \<^verbatim>\<open>type App struct\<close>.  The stack holds \<^verbatim>\<open>*Route\<close> pointers, and one Route object is
  shared by several buckets, so the Route objects live in an explicit store: \<open>heap\<close> is
  the list of allocated Route objects in allocation order and a pointer is an index
  into it.  The mutex, the context pool and the fasthttp server are not part of the
  sequential state.
\<close>

record App =
  heap :: "Route list"
  stack :: "nat list list"
  routes :: int
  Settings :: Settings

subsection \<open>Constants declared outside app.go\<close>

definition MethodGet :: string where "MethodGet = ''GET''"
definition MethodHead :: string where "MethodHead = ''HEAD''"
definition MethodPost :: string where "MethodPost = ''POST''"
definition MethodPut :: string where "MethodPut = ''PUT''"
definition MethodDelete :: string where "MethodDelete = ''DELETE''"
definition MethodConnect :: string where "MethodConnect = ''CONNECT''"
definition MethodOptions :: string where "MethodOptions = ''OPTIONS''"
definition MethodTrace :: string where "MethodTrace = ''TRACE''"
definition MethodPatch :: string where "MethodPatch = ''PATCH''"

text \<open>
  Modelled from the spec: the table \<^verbatim>\<open>methodINT\<close> (HTTP verb to bucket index) is declared
  outside app.go.  It is the spec's fixed enumeration of verbs, in the order of app.go's
  verb methods; \<^verbatim>\<open>Routes\<close> fixes index 1 as the HEAD bucket.
\<close>

definition methodTable :: "(string \<times> nat) list" where
  "methodTable =
     [(''GET'', 0), (''HEAD'', 1), (''POST'', 2), (''PUT'', 3), (''DELETE'', 4),
      (''CONNECT'', 5), (''OPTIONS'', 6), (''TRACE'', 7), (''PATCH'', 8)]"

definition methodINT :: "string \<Rightarrow> nat option" where
  "methodINT m = map_of methodTable m"

definition StatusInternalServerError :: int where "StatusInternalServerError = 500"
definition HeaderContentType :: string where "HeaderContentType = ''Content-Type''"
definition MIMETextPlainCharsetUTF8 :: string where
  "MIMETextPlainCharsetUTF8 = ''text/plain; charset=utf-8''"

section \<open>Enumeration: Routes\<close>

text \<open>
  The innermost loop of \<^verbatim>\<open>Routes\<close>: is there an entry collected so far whose method is
  USE and whose name equals the name of the route at \<open>p\<close>?
\<close>

definition is_duplicate :: "Route list \<Rightarrow> nat list \<Rightarrow> nat \<Rightarrow> bool" where
  "is_duplicate h rs p =
     list_ex (\<lambda>q. Method (h ! q) = ''USE'' \<and> Name (h ! q) = Name (h ! p)) rs"

text \<open>The body of the loop over one bucket \<open>m\<close>, at the route pointer \<open>p\<close>.\<close>

definition Routes_step :: "Route list \<Rightarrow> nat \<Rightarrow> nat \<Rightarrow> nat list \<Rightarrow> nat list" where
  "Routes_step h m p rs =
     (if m = 1 \<and> Method (h ! p) = MethodGet then rs
      else if Method (h ! p) = ''USE''
        then (if is_duplicate h rs p then rs else rs @ [p])
        else rs @ [p])"

definition Routes_bucket :: "Route list \<Rightarrow> nat \<Rightarrow> nat list \<Rightarrow> nat list \<Rightarrow> nat list" where
  "Routes_bucket h m b rs = fold (Routes_step h m) b rs"

text \<open>The outer loop \<^verbatim>\<open>for m := range app.stack\<close>, from bucket index \<open>m\<close> on.\<close>

fun Routes_stack :: "Route list \<Rightarrow> nat \<Rightarrow> nat list list \<Rightarrow> nat list \<Rightarrow> nat list" where
  "Routes_stack h m [] rs = rs"
| "Routes_stack h m (b # bs) rs = Routes_stack h (Suc m) bs (Routes_bucket h m b rs)"

text \<open>
  \<^verbatim>\<open>sort.Slice\<close> orders the collected pointers by \<^verbatim>\<open>pos\<close>.  It is modelled by the
  library's insertion sort on that key; Go's sort is not stable, and every statement
  below that depends on more than sortedness is about lists whose keys are distinct.
\<close>

definition Routes :: "App \<Rightarrow> nat list" where
  "Routes app =
     sort_key (\<lambda>p. pos (heap app ! p)) (Routes_stack (heap app) 0 (stack app) [])"

section \<open>Errors and the default error handler\<close>

text \<open>\<^verbatim>\<open>func (e *Error) Error() string\<close>: reading \<^verbatim>\<open>e.Message\<close> through a nil pointer panics.\<close>

definition Error_Error :: "Error option \<Rightarrow> panic + string" where
  "Error_Error e = (case e of None \<Rightarrow> Inl NilDereference | Some x \<Rightarrow> Inr (Message x))"

text \<open>
  The method call \<^verbatim>\<open>err.Error()\<close> on an interface value: a nil interface has no
  method to call (a nil dereference), a \<^verbatim>\<open>*Error\<close> dispatches to the method above, any
  other dynamic type returns its text.
\<close>

definition error_text :: "go_error \<Rightarrow> panic + string" where
  "error_text e =
     (case e of
        NilError \<Rightarrow> Inl NilDereference
      | ErrorPtr x \<Rightarrow> Error_Error x
      | OtherError s \<Rightarrow> Inr s)"

text \<open>
  The reason phrase \<^verbatim>\<open>utils.StatusMessage(code)\<close> of the external utils package, for the
  status codes this development mentions; any other code is given the empty phrase.
\<close>

definition StatusMessage :: "int \<Rightarrow> string" where
  "StatusMessage c =
     (if c = 400 then ''Bad Request''
      else if c = 404 then ''Not Found''
      else if c = 408 then ''Request Timeout''
      else if c = 413 then ''Request Entity Too Large''
      else if c = 431 then ''Request Header Fields Too Large''
      else if c = 500 then ''Internal Server Error''
      else [])"

text \<open>\<^verbatim>\<open>func NewError(code int, message ...string) *Error\<close>; the result is never nil.\<close>

definition NewError :: "int \<Rightarrow> string list \<Rightarrow> Error" where
  "NewError c message =
     (let e = \<lparr>Code = c, Message = StatusMessage c\<rparr>
      in case message of [] \<Rightarrow> e | m # _ \<Rightarrow> e\<lparr>Message := m\<rparr>)"

text \<open>
  Modelled from the spec: the methods \<^verbatim>\<open>Set\<close>, \<^verbatim>\<open>Status\<close> and \<^verbatim>\<open>SendString\<close> of \<^verbatim>\<open>Ctx\<close> are
  declared outside app.go.  By the spec's response builder (status code, headers, body
  buffer) they store a header, the status code and the body.
\<close>

definition Ctx_Set :: "Ctx \<Rightarrow> string \<Rightarrow> string \<Rightarrow> Ctx" where
  "Ctx_Set ctx k v = ctx\<lparr>headers := (headers ctx)(k \<mapsto> v)\<rparr>"

definition Ctx_Status :: "Ctx \<Rightarrow> int \<Rightarrow> Ctx" where
  "Ctx_Status ctx c = ctx\<lparr>status := c\<rparr>"

definition Ctx_SendString :: "Ctx \<Rightarrow> string \<Rightarrow> Ctx" where
  "Ctx_SendString ctx s = ctx\<lparr>body := s\<rparr>"

text \<open>
  \<^verbatim>\<open>defaultErrorHandler\<close>.  The type assertion \<^verbatim>\<open>err.(*Error)\<close> succeeds on every
  \<^verbatim>\<open>*Error\<close>, also on a nil pointer, where reading \<^verbatim>\<open>e.Code\<close> panics.
\<close>

definition defaultErrorHandler :: "Ctx \<Rightarrow> go_error \<Rightarrow> panic + Ctx" where
  "defaultErrorHandler ctx e =
     (case (case e of
              ErrorPtr None \<Rightarrow> Inl NilDereference
            | ErrorPtr (Some x) \<Rightarrow> Inr (Code x)
            | _ \<Rightarrow> Inr StatusInternalServerError) of
        Inl p \<Rightarrow> Inl p
      | Inr code \<Rightarrow>
          (let ctx1 = Ctx_Set ctx HeaderContentType MIMETextPlainCharsetUTF8;
               ctx2 = Ctx_Status ctx1 code
           in case error_text e of
                Inl p \<Rightarrow> Inl p
              | Inr msg \<Rightarrow> Inr (Ctx_SendString ctx2 msg)))"

section \<open>Construction and registration\<close>

definition defaultBodyLimit :: int where "defaultBodyLimit = 4 * 1024 * 1024"
definition defaultConcurrency :: int where "defaultConcurrency = 256 * 1024"
definition defaultReadBufferSize :: int where "defaultReadBufferSize = 4096"
definition defaultWriteBufferSize :: int where "defaultWriteBufferSize = 4096"
definition defaultCompressedFileSuffix :: string where
  "defaultCompressedFileSuffix = ''.fiber.gz''"

text \<open>The zero value \<^verbatim>\<open>&Settings{}\<close>.\<close>

definition zeroSettings :: Settings where
  "zeroSettings =
     \<lparr>ErrorHandler = None, Prefork = False, BodyLimit = 0, Concurrency = 0,
      ReadBufferSize = 0, WriteBufferSize = 0, CompressedFileSuffix = []\<rparr>"

text \<open>
  \<^verbatim>\<open>func New(settings ...*Settings) *App\<close>.  \<open>flagGiven\<close> is the value of
  \<^verbatim>\<open>utils.GetArgument(flagPrefork)\<close>, read from the command line.  The swap of the
  byte-conversion functions under \<^verbatim>\<open>Immutable\<close> does not touch the App and is left out.
\<close>

definition New :: "bool \<Rightarrow> Settings list \<Rightarrow> App" where
  "New flagGiven settings =
     (let s0 = (case settings of [] \<Rightarrow> zeroSettings | s # _ \<Rightarrow> s);
          s1 = (if BodyLimit s0 \<le> 0 then s0\<lparr>BodyLimit := defaultBodyLimit\<rparr> else s0);
          s2 = (if Concurrency s1 \<le> 0 then s1\<lparr>Concurrency := defaultConcurrency\<rparr> else s1);
          s3 = (if ReadBufferSize s2 \<le> 0
                then s2\<lparr>ReadBufferSize := defaultReadBufferSize\<rparr> else s2);
          s4 = (if WriteBufferSize s3 \<le> 0
                then s3\<lparr>WriteBufferSize := defaultWriteBufferSize\<rparr> else s3);
          s5 = (if CompressedFileSuffix s4 = []
                then s4\<lparr>CompressedFileSuffix := defaultCompressedFileSuffix\<rparr> else s4);
          s6 = (if ErrorHandler s5 = None
                then s5\<lparr>ErrorHandler := Some defaultErrorHandler\<rparr> else s5);
          s7 = (if \<not> Prefork s6 then s6\<lparr>Prefork := flagGiven\<rparr> else s6)
      in \<lparr>heap = [], stack = replicate (length methodTable) [], routes = 0, Settings = s7\<rparr>)"

text \<open>
  Modelled from the spec: \<^verbatim>\<open>register\<close>, which every registration of app.go ends in, is
  declared outside app.go.  From the spec: a Route's method is one of the fixed verbs or
  the pseudo-method USE and its handler chain is never empty (anything else is a fatal
  configuration error); an empty pattern equals the root; each registration takes the
  next position; the Route Table keeps one bucket per verb in insertion order, a USE
  route is matched against every verb, and a GET registration derives the HEAD route.
  \<open>stores m meth\<close> says that bucket \<open>m\<close> receives a route of method \<open>meth\<close>.  The name
  is optional and starts empty.  The result is the handle (pointer) of the new Route
  and the updated App.  The counter \<^verbatim>\<open>routes\<close> and \<^verbatim>\<open>pos\<close> are Go \<^verbatim>\<open>int\<close>s, modelled
  by \<^typ>\<open>int\<close>: they count registrations, far below the 64-bit range.
\<close>

definition stores :: "nat \<Rightarrow> string \<Rightarrow> bool" where
  "stores m meth =
     (meth = ''USE'' \<or> methodINT meth = Some m \<or> (meth = MethodGet \<and> m = 1))"

definition register :: "App \<Rightarrow> string \<Rightarrow> string \<Rightarrow> Handler list \<Rightarrow> fatal + (nat \<times> App)" where
  "register app meth pathRaw handlers =
     (if meth \<noteq> ''USE'' \<and> methodINT meth = None
        then Inl (Fatal (''Add: Invalid HTTP method '' @ meth))
      else if handlers = []
        then Inl (Fatal (''Missing handler in route: '' @ pathRaw))
      else
        (let n = routes app + 1;
             route = \<lparr>pos = n, Path = (if pathRaw = [] then ''/'' else pathRaw),
                      Method = meth, Name = [], Handlers = handlers\<rparr>;
             p = length (heap app)
         in Inr (p, app\<lparr>heap := heap app @ [route],
                        stack := map (\<lambda>(m, b). if stores m meth then b @ [p] else b)
                                   (enumerate 0 (stack app)),
                        routes := n\<rparr>)))"

text \<open>
  Modelled from the spec: the name of a Route is an optional identifying string.
  \<^verbatim>\<open>Name\<close> is an exported field, and a caller names a route by assigning through the
  \<^verbatim>\<open>*Route\<close> handle that the registration returned; every bucket holding the pointer
  sees the new name.  A handle is always a pointer to an allocated Route; at any other
  index the update leaves the store as it is.
\<close>

definition assign_Name :: "App \<Rightarrow> nat \<Rightarrow> string \<Rightarrow> App" where
  "assign_Name app p nm =
     (if p < length (heap app)
      then app\<lparr>heap := (heap app)[p := (heap app ! p)\<lparr>Name := nm\<rparr>]\<rparr>
      else app)"

text \<open>
  The arguments of \<^verbatim>\<open>Use(args ...interface{})\<close> by dynamic type: a string, a Handler, or
  a value of any other type, of which only the printed type is used.
\<close>

datatype arg = ArgString string | ArgHandler Handler | ArgOther string

text \<open>
  The type switch loop of \<^verbatim>\<open>Use\<close>: the last string is the prefix, the handlers are
  collected in order, and the first argument of another type ends the process.
\<close>

fun Use_args :: "arg list \<Rightarrow> string \<Rightarrow> Handler list \<Rightarrow> fatal + (string \<times> Handler list)" where
  "Use_args [] pfx handlers = Inr (pfx, handlers)"
| "Use_args (ArgString s # as) pfx handlers = Use_args as s handlers"
| "Use_args (ArgHandler f # as) pfx handlers = Use_args as pfx (handlers @ [f])"
| "Use_args (ArgOther ty # as) pfx handlers = Inl (Fatal (''Use: Invalid Handler '' @ ty))"

definition Use :: "App \<Rightarrow> arg list \<Rightarrow> fatal + (nat \<times> App)" where
  "Use app args =
     (case Use_args args [] [] of
        Inl f \<Rightarrow> Inl f
      | Inr (pfx, handlers) \<Rightarrow> register app ''USE'' pfx handlers)"

definition Add :: "App \<Rightarrow> string \<Rightarrow> string \<Rightarrow> Handler list \<Rightarrow> fatal + (nat \<times> App)" where
  "Add app meth path handlers = register app meth path handlers"

definition Get :: "App \<Rightarrow> string \<Rightarrow> Handler list \<Rightarrow> fatal + (nat \<times> App)" where
  "Get app path handlers = Add app MethodGet path handlers"

definition Head :: "App \<Rightarrow> string \<Rightarrow> Handler list \<Rightarrow> fatal + (nat \<times> App)" where
  "Head app path handlers = Add app MethodHead path handlers"

definition Post :: "App \<Rightarrow> string \<Rightarrow> Handler list \<Rightarrow> fatal + (nat \<times> App)" where
  "Post app path handlers = Add app MethodPost path handlers"

definition Put :: "App \<Rightarrow> string \<Rightarrow> Handler list \<Rightarrow> fatal + (nat \<times> App)" where
  "Put app path handlers = Add app MethodPut path handlers"

definition Delete :: "App \<Rightarrow> string \<Rightarrow> Handler list \<Rightarrow> fatal + (nat \<times> App)" where
  "Delete app path handlers = Add app MethodDelete path handlers"

definition Connect :: "App \<Rightarrow> string \<Rightarrow> Handler list \<Rightarrow> fatal + (nat \<times> App)" where
  "Connect app path handlers = Add app MethodConnect path handlers"

definition Options :: "App \<Rightarrow> string \<Rightarrow> Handler list \<Rightarrow> fatal + (nat \<times> App)" where
  "Options app path handlers = Add app MethodOptions path handlers"

definition Trace :: "App \<Rightarrow> string \<Rightarrow> Handler list \<Rightarrow> fatal + (nat \<times> App)" where
  "Trace app path handlers = Add app MethodTrace path handlers"

definition Patch :: "App \<Rightarrow> string \<Rightarrow> Handler list \<Rightarrow> fatal + (nat \<times> App)" where
  "Patch app path handlers = Add app MethodPatch path handlers"

text \<open>
  \<^verbatim>\<open>Group\<close> registers the group's middleware when handlers are given; the returned
  \<^verbatim>\<open>*Group\<close> (prefix and app) carries no state of its own.
\<close>

definition Group :: "App \<Rightarrow> string \<Rightarrow> Handler list \<Rightarrow> fatal + App" where
  "Group app pfx handlers =
     (if handlers \<noteq> []
      then (case register app ''USE'' pfx handlers of
              Inl f \<Rightarrow> Inl f
            | Inr (p, app') \<Rightarrow> Inr app')
      else Inr app)"

subsection \<open>Sequences of registrations\<close>

text \<open>
  One step of a program that configures an App before serving: a call of a
  registration method of app.go, or naming a route through its handle.  \<^verbatim>\<open>All\<close>
  (whose order of registration follows Go's unspecified map iteration) and \<^verbatim>\<open>Static\<close>
  (which ends in \<^verbatim>\<open>registerStatic\<close>, outside app.go) are not among the steps.
\<close>

datatype call =
    CallUse "arg list"
  | CallGet string "Handler list"
  | CallHead string "Handler list"
  | CallPost string "Handler list"
  | CallPut string "Handler list"
  | CallDelete string "Handler list"
  | CallConnect string "Handler list"
  | CallOptions string "Handler list"
  | CallTrace string "Handler list"
  | CallPatch string "Handler list"
  | CallAdd string string "Handler list"
  | CallGroup string "Handler list"
  | CallName nat string

definition dropHandle :: "fatal + (nat \<times> App) \<Rightarrow> fatal + App" where
  "dropHandle r = (case r of Inl f \<Rightarrow> Inl f | Inr (p, app) \<Rightarrow> Inr app)"

fun do_call :: "App \<Rightarrow> call \<Rightarrow> fatal + App" where
  "do_call app (CallUse args) = dropHandle (Use app args)"
| "do_call app (CallGet path hs) = dropHandle (Get app path hs)"
| "do_call app (CallHead path hs) = dropHandle (Head app path hs)"
| "do_call app (CallPost path hs) = dropHandle (Post app path hs)"
| "do_call app (CallPut path hs) = dropHandle (Put app path hs)"
| "do_call app (CallDelete path hs) = dropHandle (Delete app path hs)"
| "do_call app (CallConnect path hs) = dropHandle (Connect app path hs)"
| "do_call app (CallOptions path hs) = dropHandle (Options app path hs)"
| "do_call app (CallTrace path hs) = dropHandle (Trace app path hs)"
| "do_call app (CallPatch path hs) = dropHandle (Patch app path hs)"
| "do_call app (CallAdd meth path hs) = dropHandle (Add app meth path hs)"
| "do_call app (CallGroup pfx hs) = Group app pfx hs"
| "do_call app (CallName p nm) = Inr (assign_Name app p nm)"

text \<open>A fatal error ends the process: no later call runs.\<close>

fun run :: "App \<Rightarrow> call list \<Rightarrow> fatal + App" where
  "run app [] = Inr app"
| "run app (c # cs) = (case do_call app c of Inl f \<Rightarrow> Inl f | Inr app' \<Rightarrow> run app' cs)"

section \<open>Transport faults: the server's error hook\<close>

text \<open>
  The error a transport fault arrives as, by what the hook installed in \<^verbatim>\<open>init\<close> can
  observe of it: a \<^verbatim>\<open>*fasthttp.ErrSmallBuffer\<close>, a \<^verbatim>\<open>*net.OpError\<close> with the result of
  its \<^verbatim>\<open>Timeout()\<close>, or a value of any other type; each with the text of \<^verbatim>\<open>Error()\<close>.
\<close>

datatype transport_error =
    ErrSmallBuffer string
  | OpError bool string
  | TransportError string

fun transport_text :: "transport_error \<Rightarrow> string" where
  "transport_text (ErrSmallBuffer s) = s"
| "transport_text (OpError t s) = s"
| "transport_text (TransportError s) = s"

fun isErrSmallBuffer :: "transport_error \<Rightarrow> bool" where
  "isErrSmallBuffer (ErrSmallBuffer s) = True"
| "isErrSmallBuffer e = False"

fun isOpErrorTimeout :: "transport_error \<Rightarrow> bool" where
  "isOpErrorTimeout (OpError t s) = t"
| "isOpErrorTimeout e = False"

text \<open>
  Modelled from the spec: the four package errors the hook assigns are declared outside
  app.go.  They are the structured errors of the spec's four classes (header too large,
  request timeout, body too large, bad request), built by \<^verbatim>\<open>NewError\<close> from the status.
\<close>

definition ErrBadRequest :: Error where
  "ErrBadRequest = NewError 400 []"

definition ErrRequestTimeout :: Error where
  "ErrRequestTimeout = NewError 408 []"

definition ErrRequestEntityTooLarge :: Error where
  "ErrRequestEntityTooLarge = NewError 413 []"

definition ErrRequestHeaderFieldsTooLarge :: Error where
  "ErrRequestHeaderFieldsTooLarge = NewError 431 []"

text \<open>The chain of tests in the hook, in the order of the source.\<close>

definition classify :: "transport_error \<Rightarrow> Error" where
  "classify e =
     (if isErrSmallBuffer e then ErrRequestHeaderFieldsTooLarge
      else if isOpErrorTimeout e then ErrRequestTimeout
      else if length (transport_text e) = 33 \<and>
              transport_text e = ''body size exceeds the given limit''
        then ErrRequestEntityTooLarge
      else ErrBadRequest)"

text \<open>What the transport hands over with a request: its method and path.\<close>

record RequestCtx =
  rq_method :: string
  rq_path :: string

text \<open>
  Modelled from the spec: \<^verbatim>\<open>AcquireCtx\<close> and \<^verbatim>\<open>ReleaseCtx\<close> are declared outside app.go.
  An acquired context is bound to the request and fully reset (cursor 0, no error, no
  params, cleared response, whose status starts at the transport's 200); releasing it
  returns it to the pool and changes nothing that is observed.
\<close>

definition AcquireCtx :: "RequestCtx \<Rightarrow> Ctx" where
  "AcquireCtx fctx =
     \<lparr>req_method = rq_method fctx, req_path = rq_path fctx, status = 200,
      headers = Map.empty, body = [], params = Map.empty, cursor = 0, err = NilError\<rparr>"

text \<open>
  What a dispatch or the hook leaves behind: the context after the error handler (or the
  panic that ended it), the list of invocations of the configured error handler with
  their arguments, and the routes whose handler chain was entered, in order.
\<close>

record outcome =
  final :: "panic + Ctx"
  handled :: "(Ctx \<times> go_error) list"
  entered :: "nat list"

text \<open>
  The call \<^verbatim>\<open>app.Settings.ErrorHandler(ctx, e)\<close>; calling a nil function value panics
  before any handler runs.
\<close>

definition call_ErrorHandler :: "App \<Rightarrow> Ctx \<Rightarrow> go_error \<Rightarrow> nat list \<Rightarrow> outcome" where
  "call_ErrorHandler app ctx e tr =
     (case ErrorHandler (Settings app) of
        None \<Rightarrow> \<lparr>final = Inl NilDereference, handled = [], entered = tr\<rparr>
      | Some f \<Rightarrow> \<lparr>final = f ctx e, handled = [(ctx, e)], entered = tr\<rparr>)"

text \<open>The closure \<^verbatim>\<open>ErrorHandler: func(fctx, err)\<close> that \<^verbatim>\<open>init\<close> installs in the server.\<close>

definition server_ErrorHandler :: "App \<Rightarrow> RequestCtx \<Rightarrow> transport_error \<Rightarrow> outcome" where
  "server_ErrorHandler app fctx e =
     (let ctx = AcquireCtx fctx;
          ctx1 = ctx\<lparr>err := ErrorPtr (Some (classify e))\<rparr>
      in call_ErrorHandler app ctx1 (err ctx1) [])"

section \<open>Dispatch\<close>

text \<open>
  Modelled from the spec: the dispatcher (\<^verbatim>\<open>app.handler\<close> and the continuation
  \<^verbatim>\<open>Next\<close>) and the path matcher are declared outside app.go.  The definitions follow
  the state machine of section 4.3 of the spec.  The compiled matcher is a parameter: it
  accepts a path for a route and yields the bound params, or rejects it.
\<close>

type_synonym matcher = "Route \<Rightarrow> string \<Rightarrow> (string \<rightharpoonup> string) option"

definition ErrNotFound :: Error where
  "ErrNotFound = NewError 404 []"

text \<open>
  Modelled from the spec, step 3 (execute chain): the handler at the cursor runs; a set
  error slot ends the chain, a handler that returns without the continuation ends it,
  and the continuation advances the cursor.  Past the final handler the continuation
  goes on with the outer search, which the exit \<open>CalledNext\<close> of the chain tells.
\<close>

fun run_chain :: "Handler list \<Rightarrow> Ctx \<Rightarrow> Ctx \<times> handler_exit" where
  "run_chain [] ctx = (ctx, CalledNext)"
| "run_chain (f # fs) ctx =
     (case f ctx of
        (ctx', ex) \<Rightarrow>
          if err ctx' \<noteq> NilError then (ctx', Returned)
          else (case ex of
                  Returned \<Rightarrow> (ctx', Returned)
                | CalledNext \<Rightarrow> run_chain fs (ctx'\<lparr>cursor := cursor ctx' + 1\<rparr>)))"

text \<open>
  Modelled from the spec, steps 1 and 2 (match, bind): the bucket is scanned in its
  order; the first route whose matcher accepts the path is bound (params from the
  match, cursor 0) and its chain runs; when the chain falls through, the scan goes on
  behind that route.  With no route left, a not-found error is synthesized.  The result
  is the context and the routes entered.
\<close>

fun scan :: "matcher \<Rightarrow> Route list \<Rightarrow> nat list \<Rightarrow> Ctx \<Rightarrow> Ctx \<times> nat list" where
  "scan mt h [] ctx = (ctx\<lparr>err := ErrorPtr (Some ErrNotFound)\<rparr>, [])"
| "scan mt h (p # ps) ctx =
     (case mt (h ! p) (req_path ctx) of
        None \<Rightarrow> scan mt h ps ctx
      | Some vals \<Rightarrow>
          (case run_chain (Handlers (h ! p)) (ctx\<lparr>params := vals, cursor := 0\<rparr>) of
             (ctx', Returned) \<Rightarrow> (ctx', [p])
           | (ctx', CalledNext) \<Rightarrow>
               (case scan mt h ps ctx' of (ctx'', tr) \<Rightarrow> (ctx'', p # tr))))"

text \<open>The bucket of a request method; a method outside the table has no routes.\<close>

definition bucket_for :: "App \<Rightarrow> string \<Rightarrow> nat list" where
  "bucket_for app meth =
     (case methodINT meth of
        None \<Rightarrow> []
      | Some m \<Rightarrow> if m < length (stack app) then stack app ! m else [])"

text \<open>
  Modelled from the spec, steps 4 and 5 (error dispatch, release): with a non-empty
  error slot after the scan, the configured error handler is called with the context
  and that error; the context is then released.
\<close>

definition dispatch :: "matcher \<Rightarrow> App \<Rightarrow> RequestCtx \<Rightarrow> outcome" where
  "dispatch mt app fctx =
     (case scan mt (heap app) (bucket_for app (rq_method fctx)) (AcquireCtx fctx) of
        (ctx, tr) \<Rightarrow>
          if err ctx \<noteq> NilError then call_ErrorHandler app ctx (err ctx) tr
          else \<lparr>final = Inr ctx, handled = [], entered = tr\<rparr>)"

text \<open>The route a dispatch selects: the first one whose chain it enters.\<close>

definition selected :: "outcome \<Rightarrow> nat option" where
  "selected r = (case entered r of [] \<Rightarrow> None | p # tr \<Rightarrow> Some p)"

section \<open>The route table built by registrations\<close>

text \<open>
  \<open>bucket_of h m\<close> is what bucket \<open>m\<close> holds when the routes of the store \<open>h\<close> were
  registered in the order of the store.  \<open>table_inv\<close> is the invariant of every App
  that registrations build: each bucket is that list, a pointer \<open>p\<close> carries position
  \<open>p + 1\<close>, and every method is USE or a verb of the table.
\<close>

definition bucket_of :: "Route list \<Rightarrow> nat \<Rightarrow> nat list" where
  "bucket_of h m = filter (\<lambda>p. stores m (Method (h ! p))) [0..<length h]"

definition table_inv :: "App \<Rightarrow> bool" where
  "table_inv app =
     (stack app = map (bucket_of (heap app)) [0..<length methodTable] \<and>
      routes app = int (length (heap app)) \<and>
      (\<forall>p<length (heap app).
         pos (heap app ! p) = int p + 1 \<and>
         (Method (heap app ! p) = ''USE'' \<or> methodINT (Method (heap app ! p)) \<noteq> None)))"

text \<open>
  \<open>own h m p\<close>: the route at \<open>p\<close> was registered for the verb of bucket \<open>m\<close>.
  \<open>listed h p\<close>: the route at \<open>p\<close> is not a USE route that has an earlier USE route of
  the same name.  \<open>collected h\<close> is the list \<^verbatim>\<open>Routes\<close> holds before it sorts.
\<close>

definition own :: "Route list \<Rightarrow> nat \<Rightarrow> nat \<Rightarrow> bool" where
  "own h m p = (methodINT (Method (h ! p)) = Some m)"

definition listed :: "Route list \<Rightarrow> nat \<Rightarrow> bool" where
  "listed h p = (\<not> (Method (h ! p) = ''USE'' \<and> is_duplicate h [0..<p] p))"

definition collected :: "Route list \<Rightarrow> nat list" where
  "collected h =
     filter (\<lambda>p. own h 0 p \<or> (Method (h ! p) = ''USE'' \<and> listed h p)) [0..<length h] @
     concat (map (\<lambda>i. filter (own h i) [0..<length h]) [1..<length methodTable])"

text \<open>The USE routes of a given name, among a list of route pointers.\<close>

definition use_named :: "Route list \<Rightarrow> string \<Rightarrow> nat list \<Rightarrow> nat list" where
  "use_named h nm ps = filter (\<lambda>x. Method (h ! x) = ''USE'' \<and> Name (h ! x) = nm) ps"

section \<open>A worked configuration\<close>

text \<open>
  A handler that answers and returns, one that calls the continuation, and one that
  signals an error; and an App configured by seven registrations, two of them named.
\<close>

definition h_done :: Handler where
  "h_done ctx = (ctx\<lparr>body := ''done''\<rparr>, Returned)"

definition h_next :: Handler where
  "h_next ctx = (ctx, CalledNext)"

definition h_fail :: Handler where
  "h_fail ctx = (ctx\<lparr>err := ErrorPtr (Some (NewError 418 [''teapot'']))\<rparr>, Returned)"

definition demo_calls :: "call list" where
  "demo_calls =
     [CallUse [ArgHandler h_next],
      CallGet ''/users'' [h_done],
      CallUse [ArgString ''/api'', ArgHandler h_next],
      CallHead ''/ping'' [h_done],
      CallUse [ArgString ''/admin'', ArgHandler h_next],
      CallName 4 ''auth'',
      CallUse [ArgString ''/audit'', ArgHandler h_next],
      CallName 5 ''auth'',
      CallPost ''/users'' [h_fail]]"

text \<open>
  A matcher for the worked configurations: a USE route accepts the paths its pattern is
  a prefix of, a pattern ending in the wildcard accepts the paths that extend the part
  before it, any other pattern accepts the path equal to it; nothing is bound.
\<close>

definition demo_matcher :: matcher where
  "demo_matcher r path =
     (if (if Method r = ''USE'' then prefix (Path r) path
          else if Path r \<noteq> [] \<and> last (Path r) = CHR ''*''
            then prefix (butlast (Path r)) path
          else Path r = path)
      then Some Map.empty else None)"

definition demo_app :: App where
  "demo_app = projr (run (New False []) demo_calls)"

text \<open>A second App: three GET routes, from the broadest pattern to the most specific.\<close>

definition files_calls :: "call list" where
  "files_calls =
     [CallGet ''/*'' [h_done],
      CallGet ''/files/*'' [h_done],
      CallGet ''/files/a'' [h_done]]"

definition files_app :: App where
  "files_app = projr (run (New False []) files_calls)"

section \<open>Facts about enumeration\<close>

lemma methodINT_USE: "methodINT ''USE'' = None"
  by (simp add: methodINT_def methodTable_def)

lemma methodINT_Get: "methodINT MethodGet = Some 0"
  by (simp add: methodINT_def methodTable_def MethodGet_def)

lemma methodINT_bound: "methodINT m = Some i \<Longrightarrow> i < length methodTable"
  by (auto simp: methodINT_def methodTable_def split: if_splits)

lemma is_duplicate_iff:
  "is_duplicate h rs p = (\<exists>q\<in>set rs. Method (h ! q) = ''USE'' \<and> Name (h ! q) = Name (h ! p))"
  by (simp add: is_duplicate_def list_ex_iff)

lemma first_use_exists:
  assumes "Method (h ! p) = ''USE''"
  shows "\<exists>q\<le>p. Method (h ! q) = ''USE'' \<and> Name (h ! q) = Name (h ! p) \<and> listed h q"
proof -
  let ?P = "\<lambda>q. Method (h ! q) = ''USE'' \<and> Name (h ! q) = Name (h ! p)"
  define q where "q = (LEAST q. ?P q)"
  have P: "?P p" using assms by simp
  have Pq: "?P q" unfolding q_def by (rule LeastI [of ?P p]) (rule P)
  have le: "q \<le> p" unfolding q_def by (rule Least_le) (rule P)
  have "\<not> ?P r" if "r < q" for r using that not_less_Least unfolding q_def by blast
  then have "listed h q" using Pq by (auto simp: listed_def is_duplicate_iff)
  with Pq le show ?thesis by blast
qed

lemma Routes_bucket_snoc:
  "Routes_bucket h m (b @ [p]) rs = Routes_step h m p (Routes_bucket h m b rs)"
  by (simp add: Routes_bucket_def)

lemma stores_own:
  "(stores m meth \<and> meth \<noteq> ''USE'' \<and> \<not> (m = 1 \<and> meth = MethodGet)) = (methodINT meth = Some m)"
  using methodINT_USE methodINT_Get by (auto simp: stores_def)

lemma bucket_first:
  "Routes_bucket h 0 (filter (\<lambda>p. stores 0 (Method (h ! p))) [0..<k]) [] =
     filter (\<lambda>p. own h 0 p \<or> (Method (h ! p) = ''USE'' \<and> listed h p)) [0..<k]"
proof (induction k)
  case 0
  show ?case by (simp add: Routes_bucket_def)
next
  case (Suc k)
  let ?R = "filter (\<lambda>p. own h 0 p \<or> (Method (h ! p) = ''USE'' \<and> listed h p)) [0..<k]"
  have dup: "is_duplicate h ?R k = is_duplicate h [0..<k] k" if "Method (h ! k) = ''USE''"
  proof
    assume "is_duplicate h ?R k"
    then show "is_duplicate h [0..<k] k" by (auto simp: is_duplicate_iff)
  next
    assume "is_duplicate h [0..<k] k"
    then obtain r where r: "r < k" "Method (h ! r) = ''USE''" "Name (h ! r) = Name (h ! k)"
      by (auto simp: is_duplicate_iff)
    from first_use_exists [OF r(2)] obtain q where
      q: "q \<le> r" "Method (h ! q) = ''USE''" "Name (h ! q) = Name (h ! r)" "listed h q"
      by blast
    then have "q \<in> set ?R" using r(1) by simp
    moreover have "Method (h ! q) = ''USE'' \<and> Name (h ! q) = Name (h ! k)"
      using q r by simp
    ultimately show "is_duplicate h ?R k" unfolding is_duplicate_iff by blast
  qed
  show ?case
  proof (cases "stores 0 (Method (h ! k))")
    case False
    then have "\<not> own h 0 k" "Method (h ! k) \<noteq> ''USE''"
      by (auto simp: own_def stores_def)
    with False Suc show ?thesis by simp
  next
    case True
    show ?thesis
    proof (cases "Method (h ! k) = ''USE''")
      case U: True
      then have "\<not> own h 0 k" by (simp add: own_def methodINT_USE)
      with True U Suc dup [OF U] show ?thesis
        by (simp add: Routes_bucket_snoc Routes_step_def listed_def)
    next
      case N: False
      with True have "own h 0 k" using stores_own [of 0 "Method (h ! k)"] by (simp add: own_def)
      with True N Suc show ?thesis
        by (simp add: Routes_bucket_snoc Routes_step_def)
    qed
  qed
qed

lemma bucket_later:
  assumes cover: "\<forall>p<k. Method (h ! p) = ''USE'' \<longrightarrow> is_duplicate h acc p"
  shows "Routes_bucket h m (filter (\<lambda>p. stores m (Method (h ! p))) [0..<k]) acc =
           acc @ filter (own h m) [0..<k]"
  using cover
proof (induction k)
  case 0
  show ?case by (simp add: Routes_bucket_def)
next
  case (Suc k)
  then have IH: "Routes_bucket h m (filter (\<lambda>p. stores m (Method (h ! p))) [0..<k]) acc =
           acc @ filter (own h m) [0..<k]" by simp
  show ?case
  proof (cases "stores m (Method (h ! k))")
    case False
    then have "\<not> own h m k" using stores_own [of m "Method (h ! k)"] by (auto simp: own_def)
    with False IH show ?thesis by simp
  next
    case True
    show ?thesis
    proof (cases "Method (h ! k) = ''USE''")
      case U: True
      then have no: "\<not> own h m k" by (simp add: own_def methodINT_USE)
      from U Suc.prems have "is_duplicate h acc k" by simp
      then have "is_duplicate h (acc @ filter (own h m) [0..<k]) k"
        by (auto simp: is_duplicate_iff)
      with True U no IH show ?thesis
        by (simp add: Routes_bucket_snoc Routes_step_def)
    next
      case N: False
      show ?thesis
      proof (cases "m = 1 \<and> Method (h ! k) = MethodGet")
        case G: True
        then have "\<not> own h m k" using stores_own [of m "Method (h ! k)"] by (auto simp: own_def)
        with True G IH show ?thesis
          by (simp add: Routes_bucket_snoc Routes_step_def)
      next
        case NG: False
        with True N have "own h m k" using stores_own [of m "Method (h ! k)"] by (auto simp: own_def)
        with True N NG IH show ?thesis
          by (auto simp add: Routes_bucket_snoc Routes_step_def)
      qed
    qed
  qed
qed


lemma is_duplicate_append: "is_duplicate h acc p \<Longrightarrow> is_duplicate h (acc @ xs) p"
  by (auto simp: is_duplicate_iff)

lemma stack_later:
  assumes "\<forall>p<length h. Method (h ! p) = ''USE'' \<longrightarrow> is_duplicate h acc p"
  shows "Routes_stack h m (map (bucket_of h) [m..<m + j]) acc =
           acc @ concat (map (\<lambda>i. filter (own h i) [0..<length h]) [m..<m + j])"
  using assms
proof (induction j arbitrary: m acc)
  case 0
  show ?case by simp
next
  case (Suc j)
  have up: "[m..<m + Suc j] = m # [Suc m..<Suc m + j]"
    by (simp add: upt_conv_Cons)
  let ?acc = "acc @ filter (own h m) [0..<length h]"
  have b: "Routes_bucket h m (bucket_of h m) acc = ?acc"
    unfolding bucket_of_def by (rule bucket_later) (rule Suc.prems)
  have cover: "\<forall>p<length h. Method (h ! p) = ''USE'' \<longrightarrow> is_duplicate h ?acc p"
    using Suc.prems is_duplicate_append by blast
  show ?case
    unfolding up using Suc.IH [OF cover, of "Suc m"] by (simp add: b)
qed

lemma Routes_stack_collected:
  "Routes_stack h 0 (map (bucket_of h) [0..<length methodTable]) [] = collected h"
proof -
  let ?acc = "filter (\<lambda>p. own h 0 p \<or> (Method (h ! p) = ''USE'' \<and> listed h p)) [0..<length h]"
  have len: "length methodTable = 1 + 8" by (simp add: methodTable_def)
  have up: "[0..<length methodTable] = 0 # [1..<1 + 8]"
    unfolding len by (simp add: upt_conv_Cons)
  have cover: "\<forall>p<length h. Method (h ! p) = ''USE'' \<longrightarrow> is_duplicate h ?acc p"
  proof (intro allI impI)
    fix p assume p: "p < length h" "Method (h ! p) = ''USE''"
    from first_use_exists [OF p(2)] obtain q where
      q: "q \<le> p" "Method (h ! q) = ''USE''" "Name (h ! q) = Name (h ! p)" "listed h q"
      by blast
    then have "q \<in> set ?acc" using p(1) by simp
    with q show "is_duplicate h ?acc p" unfolding is_duplicate_iff by blast
  qed
  have "Routes_stack h 0 (map (bucket_of h) [0..<length methodTable]) [] =
          Routes_stack h 1 (map (bucket_of h) [1..<1 + 8]) ?acc"
    unfolding up by (simp add: bucket_of_def bucket_first)
  also have "\<dots> = ?acc @ concat (map (\<lambda>i. filter (own h i) [0..<length h]) [1..<1 + 8])"
    by (rule stack_later) (rule cover)
  finally show ?thesis unfolding collected_def len .
qed

lemma distinct_concat_filters:
  assumes "distinct xs" "distinct js"
  shows "distinct (concat (map (\<lambda>i. filter (\<lambda>p. f p = Some i) xs) js))"
  using assms(2)
proof (induction js)
  case Nil
  show ?case by simp
next
  case (Cons j js)
  then show ?case using assms(1) by auto
qed

lemma distinct_collected: "distinct (collected h)"
proof -
  have "distinct (concat (map (\<lambda>i. filter (\<lambda>p. methodINT (Method (h ! p)) = Some i) [0..<length h])
          [1..<length methodTable]))"
    by (rule distinct_concat_filters) simp_all
  moreover have "own h = (\<lambda>i p. methodINT (Method (h ! p)) = Some i)"
    by (simp add: own_def fun_eq_iff)
  ultimately show ?thesis
    by (auto simp: collected_def methodINT_USE)
qed

lemma set_collected:
  assumes "\<forall>p<length h. Method (h ! p) = ''USE'' \<or> methodINT (Method (h ! p)) \<noteq> None"
  shows "set (collected h) = {p. p < length h \<and> listed h p}"
proof (intro set_eqI iffI)
  fix p assume "p \<in> set (collected h)"
  then show "p \<in> {p. p < length h \<and> listed h p}"
    by (auto simp: collected_def own_def listed_def methodINT_USE)
next
  fix p assume "p \<in> {p. p < length h \<and> listed h p}"
  then have p: "p < length h" "listed h p" by simp_all
  show "p \<in> set (collected h)"
  proof (cases "Method (h ! p) = ''USE''")
    case True
    with p show ?thesis by (simp add: collected_def)
  next
    case False
    with assms p(1) obtain i where i: "methodINT (Method (h ! p)) = Some i" by auto
    then have "i < length methodTable" by (rule methodINT_bound)
    then have "i = 0 \<or> i \<in> set [1..<length methodTable]" by auto
    with i p(1) show ?thesis by (auto simp: collected_def own_def)
  qed
qed

lemma sort_key_pointers:
  assumes d: "distinct xs" and b: "\<forall>p\<in>set xs. p < n" and f: "\<forall>p<n. f p = int p + 1"
  shows "sort_key f xs = filter (\<lambda>p. p \<in> set xs) [0..<n]"
proof -
  let ?S = "sort_key f xs"
  have eq: "map f ?S = map (\<lambda>p. int p + 1) ?S"
    using b f by (intro map_cong) auto
  have "sorted (map (\<lambda>p. int p + 1) ?S)"
    using sorted_sort_key [of f xs] by (simp only: eq)
  then have s: "sorted ?S"
    by (simp add: sorted_wrt_map sorted_wrt_iff_nth_less)
  have ds: "distinct ?S" using d by simp
  have "set ?S = set (filter (\<lambda>p. p \<in> set xs) [0..<n])" using b by auto
  moreover have "sorted (filter (\<lambda>p. p \<in> set xs) [0..<n])" by (simp add: sorted_wrt_filter)
  moreover have "distinct (filter (\<lambda>p. p \<in> set xs) [0..<n])" by simp
  ultimately show ?thesis using s ds by (intro sorted_distinct_set_unique)
qed

lemma Routes_listed:
  assumes "table_inv app"
  shows "Routes app = filter (listed (heap app)) [0..<length (heap app)]"
proof -
  let ?h = "heap app"
  from assms have st: "stack app = map (bucket_of ?h) [0..<length methodTable]"
    and ps: "\<forall>p<length ?h. pos (?h ! p) = int p + 1"
    and ms: "\<forall>p<length ?h. Method (?h ! p) = ''USE'' \<or> methodINT (Method (?h ! p)) \<noteq> None"
    by (simp_all add: table_inv_def)
  have set: "set (collected ?h) = {p. p < length ?h \<and> listed ?h p}"
    by (rule set_collected) (rule ms)
  have "Routes app = sort_key (\<lambda>p. pos (?h ! p)) (collected ?h)"
    by (simp add: Routes_def st Routes_stack_collected)
  also have "\<dots> = filter (\<lambda>p. p \<in> set (collected ?h)) [0..<length ?h]"
    by (rule sort_key_pointers) (use distinct_collected set ps in auto)
  also have "\<dots> = filter (listed ?h) [0..<length ?h]"
    unfolding set by (rule filter_cong) auto
  finally show ?thesis .
qed


lemma table_inv_New: "table_inv (New flagGiven settings)"
proof -
  have "bucket_of [] = (\<lambda>m. [])"
    by (simp add: fun_eq_iff bucket_of_def)
  then show ?thesis
    by (simp add: table_inv_def New_def Let_def map_replicate_const)
qed

lemma bucket_of_snoc:
  "bucket_of (h @ [r]) m = bucket_of h m @ (if stores m (Method r) then [length h] else [])"
proof -
  have "filter (\<lambda>p. stores m (Method ((h @ [r]) ! p))) [0..<length h] =
          filter (\<lambda>p. stores m (Method (h ! p))) [0..<length h]"
    by (rule filter_cong) (auto simp: nth_append)
  then show ?thesis by (simp add: bucket_of_def)
qed

lemma table_inv_register:
  assumes inv: "table_inv app" and reg: "register app meth path hs = Inr (q, app')"
  shows "table_inv app'"
proof -
  define r where "r = \<lparr>pos = routes app + 1, Path = (if path = [] then ''/'' else path),
                      Method = meth, Name = [], Handlers = hs\<rparr>"
  from reg have ok: "meth = ''USE'' \<or> methodINT meth \<noteq> None"
    by (auto simp: register_def split: if_splits)
  from reg have app': "app' = app\<lparr>heap := heap app @ [r],
        stack := map (\<lambda>(m, b). if stores m meth then b @ [length (heap app)] else b)
                   (enumerate 0 (stack app)),
        routes := routes app + 1\<rparr>"
    by (auto simp: register_def r_def Let_def split: if_splits)
  from inv have st: "stack app = map (bucket_of (heap app)) [0..<length methodTable]"
    and rt: "routes app = int (length (heap app))"
    and ps: "\<forall>p<length (heap app). pos (heap app ! p) = int p + 1 \<and>
         (Method (heap app ! p) = ''USE'' \<or> methodINT (Method (heap app ! p)) \<noteq> None)"
    by (simp_all add: table_inv_def)
  have "stack app' = map (bucket_of (heap app')) [0..<length methodTable]"
    by (rule nth_equalityI)
       (auto simp: app' st nth_enumerate_eq bucket_of_snoc r_def)
  moreover have "routes app' = int (length (heap app'))"
    by (simp add: app' rt)
  moreover have "\<forall>p<length (heap app'). pos (heap app' ! p) = int p + 1 \<and>
         (Method (heap app' ! p) = ''USE'' \<or> methodINT (Method (heap app' ! p)) \<noteq> None)"
    using ps ok rt by (auto simp: app' nth_append r_def less_Suc_eq)
  ultimately show ?thesis by (simp add: table_inv_def)
qed

lemma nth_Name_update:
  "x < length h \<Longrightarrow>
     Method (h[p := (h ! p)\<lparr>Name := nm\<rparr>] ! x) = Method (h ! x) \<and>
     pos (h[p := (h ! p)\<lparr>Name := nm\<rparr>] ! x) = pos (h ! x)"
  by (cases "p < length h") (simp_all add: nth_list_update)

lemma bucket_of_Name:
  "bucket_of (h[p := (h ! p)\<lparr>Name := nm\<rparr>]) m = bucket_of h m"
proof -
  have "filter (\<lambda>x. stores m (Method (h[p := (h ! p)\<lparr>Name := nm\<rparr>] ! x))) [0..<length h] =
          filter (\<lambda>x. stores m (Method (h ! x))) [0..<length h]"
    by (rule filter_cong) (simp_all add: nth_Name_update)
  then show ?thesis by (simp add: bucket_of_def)
qed

lemma table_inv_assign_Name: "table_inv app \<Longrightarrow> table_inv (assign_Name app p nm)"
  by (simp add: table_inv_def assign_Name_def bucket_of_Name nth_Name_update)

lemma table_inv_do_call:
  assumes "table_inv app" and "do_call app c = Inr app'"
  shows "table_inv app'"
proof -
  have reg: "table_inv app'" if "dropHandle (register app meth path hs) = Inr app'"
    for meth path hs
  proof -
    from that obtain q where "register app meth path hs = Inr (q, app')"
      by (auto simp: dropHandle_def split: sum.splits)
    with assms(1) show ?thesis by (rule table_inv_register)
  qed
  show ?thesis
  proof (cases c)
    case (CallUse args)
    with assms(2) show ?thesis
      by (auto simp: Use_def split: sum.splits prod.splits intro: reg)
        (auto simp: dropHandle_def)
  next
    case (CallGroup pfx hs)
    with assms show ?thesis
      by (auto simp: Group_def split: if_splits sum.splits intro: table_inv_register)
  next
    case (CallName p nm)
    with assms show ?thesis by (auto intro: table_inv_assign_Name)
  qed (use assms(2) in \<open>auto simp: Get_def Head_def Post_def Put_def Delete_def Connect_def
         Options_def Trace_def Patch_def Add_def intro: reg\<close>)
qed

lemma table_inv_run: "table_inv app \<Longrightarrow> run app cs = Inr app' \<Longrightarrow> table_inv app'"
proof (induction cs arbitrary: app)
  case Nil
  then show ?case by simp
next
  case (Cons c cs)
  then show ?case by (auto split: sum.splits dest: table_inv_do_call)
qed

lemma listed_nonUSE: "Method (h ! p) \<noteq> ''USE'' \<Longrightarrow> listed h p"
  by (simp add: listed_def)

lemma table_inv_built: "run (New fl ss) cs = Inr app \<Longrightarrow> table_inv app"
  using table_inv_run [OF table_inv_New] .

lemma filter_single:
  "distinct xs \<Longrightarrow> filter (\<lambda>x. x = f) xs = (if f \<in> set xs then [f] else [])"
  by (induction xs) auto

lemma use_named_listed:
  assumes f: "f < n" "Method (h ! f) = ''USE''" "Name (h ! f) = nm" "listed h f"
  shows "use_named h nm (filter (listed h) [0..<n]) = [f]"
proof -
  have "(Method (h ! x) = ''USE'' \<and> Name (h ! x) = nm \<and> listed h x) = (x = f)" for x
  proof
    assume x: "Method (h ! x) = ''USE'' \<and> Name (h ! x) = nm \<and> listed h x"
    have "\<not> x < f" using f x by (auto simp: listed_def is_duplicate_iff)
    moreover have "\<not> f < x" using f x by (auto simp: listed_def is_duplicate_iff)
    ultimately show "x = f" by simp
  next
    assume "x = f" with f show "Method (h ! x) = ''USE'' \<and> Name (h ! x) = nm \<and> listed h x"
      by simp
  qed
  then have "use_named h nm (filter (listed h) [0..<n]) = filter (\<lambda>x. x = f) [0..<n]"
    by (auto simp: use_named_def intro: filter_cong)
  also have "\<dots> = [f]" using f(1) by (simp add: filter_single)
  finally show ?thesis .
qed

lemma Routes_sorted: "sorted (map (\<lambda>p. pos (heap app ! p)) (Routes app))"
  unfolding Routes_def by (rule sorted_sort_key)

text \<open>
  Claim C2.  \<^verbatim>\<open>Routes()\<close> returns its entries in ascending order of \<^verbatim>\<open>pos\<close>, whatever the
  stack holds.  For an App built by any sequence of registrations, the route registered
  as number \<open>p + 1\<close> has that position, the positions of the entries are strictly
  ascending, the entries are a subsequence of the routes in registration order, and
  every route that is not a USE route is among them: enumeration order is registration
  order, whichever buckets hold a route.
\<close>

theorem Routes_in_registration_order:
  "sorted (map (\<lambda>p. pos (heap app ! p)) (Routes app)) \<and>
   (run (New fl ss) cs = Inr app \<longrightarrow>
      (\<forall>p<length (heap app). pos (heap app ! p) = int p + 1) \<and>
      sorted_wrt (<) (map (\<lambda>p. pos (heap app ! p)) (Routes app)) \<and>
      subseq (map ((!) (heap app)) (Routes app)) (heap app) \<and>
      (\<forall>p<length (heap app). Method (heap app ! p) \<noteq> ''USE'' \<longrightarrow> p \<in> set (Routes app)))"
proof (intro conjI impI)
  show "sorted (map (\<lambda>p. pos (heap app ! p)) (Routes app))" by (rule Routes_sorted)
next
  assume "run (New fl ss) cs = Inr app"
  then have inv: "table_inv app" by (rule table_inv_built)
  then show ps: "\<forall>p<length (heap app). pos (heap app ! p) = int p + 1"
    by (simp add: table_inv_def)
  let ?R = "filter (listed (heap app)) [0..<length (heap app)]"
  have R: "Routes app = ?R" using inv by (rule Routes_listed)
  have "map (\<lambda>p. pos (heap app ! p)) ?R = map (\<lambda>p. int p + 1) ?R"
    using ps by (intro map_cong) auto
  moreover have "sorted_wrt (<) (map (\<lambda>p. int p + 1) ?R)"
  proof -
    have "sorted_wrt (<) ?R" by (rule sorted_wrt_filter) simp
    then have "sorted_wrt (\<lambda>x y. int x + 1 < int y + 1) ?R"
      by (rule sorted_wrt_mono_rel [rotated]) simp
    then show ?thesis by (simp only: sorted_wrt_map)
  qed
  ultimately show "sorted_wrt (<) (map (\<lambda>p. pos (heap app ! p)) (Routes app))"
    by (simp only: R)
  have "subseq (map ((!) (heap app)) ?R) (map ((!) (heap app)) [0..<length (heap app)])"
    by (intro subseq_map subseq_filter_left)
  then show "subseq (map ((!) (heap app)) (Routes app)) (heap app)"
    by (simp only: R map_nth)
  show "\<forall>p<length (heap app). Method (heap app ! p) \<noteq> ''USE'' \<longrightarrow> p \<in> set (Routes app)"
    by (simp add: R listed_nonUSE)
qed

text \<open>
  Claim C3.  In an App built by registrations, for every registered USE route there is
  exactly one USE entry of its name in \<^verbatim>\<open>Routes()\<close>, and that entry is the USE route of
  this name with the least position, the first registered.  So of two USE routes of the
  same name only the first is returned, and USE routes of distinct names are all
  returned.
\<close>

theorem Routes_USE_name_once:
  assumes "run (New fl ss) cs = Inr app"
    and "p < length (heap app)" and "Method (heap app ! p) = ''USE''"
  shows "\<exists>f. f \<le> p \<and>
           use_named (heap app) (Name (heap app ! p)) (Routes app) = [f] \<and>
           (\<forall>x<length (heap app).
              Method (heap app ! x) = ''USE'' \<and> Name (heap app ! x) = Name (heap app ! p)
                \<longrightarrow> pos (heap app ! f) \<le> pos (heap app ! x))"
proof -
  let ?h = "heap app"
  from assms(1) have inv: "table_inv app" by (rule table_inv_built)
  from first_use_exists [OF assms(3)] obtain f where
    f: "f \<le> p" "Method (?h ! f) = ''USE''" "Name (?h ! f) = Name (?h ! p)" "listed ?h f"
    by blast
  have fn: "f < length ?h" using f(1) assms(2) by simp
  have "use_named ?h (Name (?h ! p)) (Routes app) = [f]"
    unfolding Routes_listed [OF inv] using fn f(2,3,4) by (rule use_named_listed)
  moreover have "pos (?h ! f) \<le> pos (?h ! x)"
    if x: "x < length ?h" "Method (?h ! x) = ''USE''" "Name (?h ! x) = Name (?h ! p)" for x
  proof -
    have "\<not> x < f" using f x by (auto simp: listed_def is_duplicate_iff)
    then show ?thesis using inv fn x(1) by (simp add: table_inv_def)
  qed
  ultimately show ?thesis using f(1) by blast
qed


lemma Routes_bucket_skips_GET:
  "Method (h ! p) = MethodGet \<Longrightarrow> p \<notin> set acc \<Longrightarrow> p \<notin> set (Routes_bucket h 1 b acc)"
proof (induction b arbitrary: acc rule: rev_induct)
  case Nil
  then show ?case by (simp add: Routes_bucket_def)
next
  case (snoc x xs)
  then have IH: "p \<notin> set (Routes_bucket h 1 xs acc)" by simp
  show ?case
  proof (cases "Method (h ! x) = MethodGet")
    case True
    with IH show ?thesis by (simp add: Routes_bucket_snoc Routes_step_def)
  next
    case False
    with snoc.prems(1) have "x \<noteq> p" by auto
    with IH False show ?thesis by (simp add: Routes_bucket_snoc Routes_step_def)
  qed
qed

lemma stack_nth:
  "table_inv app \<Longrightarrow> m < length methodTable \<Longrightarrow> stack app ! m = bucket_of (heap app) m"
  by (simp add: table_inv_def)

lemma count_list_distinct:
  "distinct xs \<Longrightarrow> count_list xs x = (if x \<in> set xs then 1 else 0)"
  by (induction xs) auto

text \<open>
  Claim C4.  A route registered by \<^verbatim>\<open>Get\<close> sits in the GET bucket and, as the derived HEAD
  route, in the HEAD bucket (index 1); the loop over the HEAD bucket never collects it,
  so \<^verbatim>\<open>Routes()\<close> lists it once, not twice.  A route registered by \<^verbatim>\<open>Head\<close> sits in the
  HEAD bucket and is listed.
\<close>

theorem Routes_suppresses_derived_HEAD:
  assumes "run (New fl ss) cs = Inr app" and "p < length (heap app)"
  shows "(Method (heap app ! p) = MethodGet \<longrightarrow>
            p \<in> set (stack app ! 0) \<and> p \<in> set (stack app ! 1) \<and>
            (\<forall>acc. p \<notin> set acc \<longrightarrow>
               p \<notin> set (Routes_bucket (heap app) 1 (stack app ! 1) acc)) \<and>
            count_list (Routes app) p = 1) \<and>
         (Method (heap app ! p) = MethodHead \<longrightarrow>
            p \<in> set (stack app ! 1) \<and> count_list (Routes app) p = 1)"
proof -
  let ?h = "heap app"
  from assms(1) have inv: "table_inv app" by (rule table_inv_built)
  have len: "0 < length methodTable" "1 < length methodTable"
    by (simp_all add: methodTable_def)
  have s0: "stack app ! 0 = bucket_of ?h 0" and s1: "stack app ! 1 = bucket_of ?h 1"
    using inv len by (simp_all add: stack_nth)
  have cnt: "count_list (Routes app) p = 1" if "Method (?h ! p) \<noteq> ''USE''"
    using that assms(2) by (simp add: Routes_listed [OF inv] count_list_distinct listed_nonUSE)
  show ?thesis
  proof (intro conjI impI allI)
    assume g: "Method (?h ! p) = MethodGet"
    show "p \<in> set (stack app ! 0)" using g assms(2)
      by (simp add: s0 bucket_of_def stores_def methodINT_Get)
    show "p \<in> set (stack app ! 1)" using g assms(2)
      unfolding s1 by (simp add: bucket_of_def stores_def)
    show "count_list (Routes app) p = 1" using g by (intro cnt) (simp add: MethodGet_def)
    fix acc assume "p \<notin> set acc"
    with g show "p \<notin> set (Routes_bucket ?h 1 (stack app ! 1) acc)"
      by (rule Routes_bucket_skips_GET)
  next
    assume hd: "Method (?h ! p) = MethodHead"
    show "p \<in> set (stack app ! 1)" using hd assms(2)
      unfolding s1
      by (simp add: bucket_of_def stores_def methodINT_def methodTable_def MethodHead_def)
    show "count_list (Routes app) p = 1" using hd by (intro cnt) (simp add: MethodHead_def)
  qed
qed

section \<open>Facts about the default error handler\<close>

lemma defaultErrorHandler_nil:
  "defaultErrorHandler ctx NilError = Inl NilDereference \<and>
   defaultErrorHandler ctx (ErrorPtr None) = Inl NilDereference"
  by (simp add: defaultErrorHandler_def error_text_def Error_Error_def)


section \<open>Facts about Use\<close>

lemma Use_args_fatal:
  "ArgOther ty \<in> set args \<Longrightarrow>
     \<exists>ty'. ArgOther ty' \<in> set args \<and>
       Use_args args pfx hs = Inl (Fatal (''Use: Invalid Handler '' @ ty'))"
proof (induction args arbitrary: pfx hs)
  case Nil
  then show ?case by simp
next
  case (Cons a as)
  show ?case
  proof (cases a)
    case (ArgString s)
    with Cons.prems have "ArgOther ty \<in> set as" by simp
    from Cons.IH [OF this, of s hs] ArgString show ?thesis by auto
  next
    case (ArgHandler f)
    with Cons.prems have "ArgOther ty \<in> set as" by simp
    from Cons.IH [OF this, of pfx "hs @ [f]"] ArgHandler show ?thesis by auto
  next
    case (ArgOther t)
    then show ?thesis by auto
  qed
qed

lemma Use_args_ok:
  "\<forall>ty. ArgOther ty \<notin> set args \<Longrightarrow> \<exists>p hs'. Use_args args pfx hs = Inr (p, hs')"
proof (induction args arbitrary: pfx hs)
  case Nil
  then show ?case by simp
next
  case (Cons a as)
  then show ?case by (cases a) auto
qed

text \<open>
  Claim C8.  When an argument of \<^verbatim>\<open>Use\<close> is neither a string nor a Handler, \<^verbatim>\<open>Use\<close> ends in
  the fatal error that names the type of such an argument: no route is registered, and
  the program of registrations stops there, before any later call and before serving.
\<close>

theorem Use_invalid_argument_fatal:
  assumes "ArgOther ty \<in> set args"
  shows "\<exists>ty'. ArgOther ty' \<in> set args \<and>
           Use app args = Inl (Fatal (''Use: Invalid Handler '' @ ty')) \<and>
           run app (CallUse args # cs) = Inl (Fatal (''Use: Invalid Handler '' @ ty'))"
proof -
  from Use_args_fatal [OF assms, of "[]" "[]"] obtain ty' where
    t: "ArgOther ty' \<in> set args"
       "Use_args args [] [] = Inl (Fatal (''Use: Invalid Handler '' @ ty'))"
    by blast
  then have "Use app args = Inl (Fatal (''Use: Invalid Handler '' @ ty'))"
    by (simp add: Use_def)
  then show ?thesis using t(1) by (auto simp: dropHandle_def)
qed

section \<open>Facts about the transport hook\<close>

lemma body_limit_text_length: "length ''body size exceeds the given limit'' = 33"
  by simp

lemma classify_cases:
  "classify (ErrSmallBuffer s) = ErrRequestHeaderFieldsTooLarge"
  "classify (OpError True s) = ErrRequestTimeout"
  "classify (OpError False s) =
     (if s = ''body size exceeds the given limit''
      then ErrRequestEntityTooLarge else ErrBadRequest)"
  "classify (TransportError s) =
     (if s = ''body size exceeds the given limit''
      then ErrRequestEntityTooLarge else ErrBadRequest)"
  by (auto simp: classify_def)

lemma call_ErrorHandler_Some:
  "ErrorHandler (Settings app) = Some eh \<Longrightarrow>
     call_ErrorHandler app ctx e tr = \<lparr>final = eh ctx e, handled = [(ctx, e)], entered = tr\<rparr>"
  by (simp add: call_ErrorHandler_def)

text \<open>
  Claim C7.  The hook classifies a transport fault into one of four structured errors
  with the four distinct codes 431, 408, 413 and 400: a small-buffer error is header
  too large, a network error that timed out is request timeout, of the rest the error
  with the body-limit text is body too large, and everything else is bad request.  The
  configured error handler is then called once, with the context carrying that error
  and with that error.
\<close>

theorem transport_fault_classified:
  assumes "ErrorHandler (Settings app) = Some eh"
  shows "classify e \<in> set [ErrRequestHeaderFieldsTooLarge, ErrRequestTimeout,
                            ErrRequestEntityTooLarge, ErrBadRequest] \<and>
         map Code [ErrRequestHeaderFieldsTooLarge, ErrRequestTimeout,
                   ErrRequestEntityTooLarge, ErrBadRequest] = [431, 408, 413, 400] \<and>
         classify (ErrSmallBuffer s) = ErrRequestHeaderFieldsTooLarge \<and>
         classify (OpError True s) = ErrRequestTimeout \<and>
         classify (OpError False s) =
           (if s = ''body size exceeds the given limit''
            then ErrRequestEntityTooLarge else ErrBadRequest) \<and>
         classify (TransportError s) =
           (if s = ''body size exceeds the given limit''
            then ErrRequestEntityTooLarge else ErrBadRequest) \<and>
         handled (server_ErrorHandler app fctx e) =
           [((AcquireCtx fctx)\<lparr>err := ErrorPtr (Some (classify e))\<rparr>,
             ErrorPtr (Some (classify e)))] \<and>
         final (server_ErrorHandler app fctx e) =
           eh ((AcquireCtx fctx)\<lparr>err := ErrorPtr (Some (classify e))\<rparr>)
              (ErrorPtr (Some (classify e)))"
proof -
  have "classify e \<in> set [ErrRequestHeaderFieldsTooLarge, ErrRequestTimeout,
                            ErrRequestEntityTooLarge, ErrBadRequest]"
    by (simp add: classify_def)
  moreover have "map Code [ErrRequestHeaderFieldsTooLarge, ErrRequestTimeout,
                   ErrRequestEntityTooLarge, ErrBadRequest] = [431, 408, 413, 400]"
    by (simp add: ErrRequestHeaderFieldsTooLarge_def ErrRequestTimeout_def
        ErrRequestEntityTooLarge_def ErrBadRequest_def NewError_def)
  moreover have "handled (server_ErrorHandler app fctx e) =
           [((AcquireCtx fctx)\<lparr>err := ErrorPtr (Some (classify e))\<rparr>,
             ErrorPtr (Some (classify e)))]"
    "final (server_ErrorHandler app fctx e) =
           eh ((AcquireCtx fctx)\<lparr>err := ErrorPtr (Some (classify e))\<rparr>)
              (ErrorPtr (Some (classify e)))"
    using assms by (simp_all add: server_ErrorHandler_def Let_def call_ErrorHandler_Some)
  ultimately show ?thesis using classify_cases [of s] by simp
qed

section \<open>Facts about dispatch\<close>

lemma scan_selects_first:
  "(case snd (scan mt h ps ctx) of [] \<Rightarrow> None | p # tr \<Rightarrow> Some p) =
     find (\<lambda>p. mt (h ! p) (req_path ctx) \<noteq> None) ps"
proof (induction ps)
  case Nil
  show ?case by simp
next
  case (Cons p ps)
  show ?case
  proof (cases "mt (h ! p) (req_path ctx)")
    case None
    with Cons show ?thesis by simp
  next
    case (Some vals)
    then show ?thesis
      by (simp split: prod.splits handler_exit.splits)
  qed
qed


lemma entered_dispatch:
  "entered (dispatch mt app fctx) =
     snd (scan mt (heap app) (bucket_for app (rq_method fctx)) (AcquireCtx fctx))"
  by (simp add: dispatch_def call_ErrorHandler_def split: prod.splits option.splits)

lemma selected_dispatch:
  "selected (dispatch mt app fctx) =
     find (\<lambda>p. mt (heap app ! p) (rq_path fctx) \<noteq> None) (bucket_for app (rq_method fctx))"
proof -
  have "req_path (AcquireCtx fctx) = rq_path fctx" by (simp add: AcquireCtx_def)
  then show ?thesis
    using scan_selects_first [of mt "heap app" "bucket_for app (rq_method fctx)" "AcquireCtx fctx"]
    by (simp add: selected_def entered_dispatch)
qed

lemma find_sorted_least:
  assumes "sorted_wrt (<) xs" and "x \<in> set xs" and "P x"
  shows "\<exists>s. find P xs = Some s \<and> s \<in> set xs \<and> P s \<and> s \<le> (x::nat) \<and>
             (\<forall>y\<in>set xs. y < s \<longrightarrow> \<not> P y)"
  using assms
proof (induction xs)
  case Nil
  then show ?case by simp
next
  case (Cons a xs)
  show ?case
  proof (cases "P a")
    case True
    with Cons.prems show ?thesis by auto
  next
    case False
    with Cons.prems have "x \<in> set xs" "sorted_wrt (<) xs" by auto
    from Cons.IH [OF this(2,1) Cons.prems(3)] obtain s where
      s: "find P xs = Some s" "s \<in> set xs" "P s" "s \<le> x" "\<forall>y\<in>set xs. y < s \<longrightarrow> \<not> P y"
      by blast
    with False show ?thesis by auto
  qed
qed

lemma bucket_for_built:
  assumes "table_inv app" and "methodINT meth = Some m"
  shows "bucket_for app meth = stack app ! m" and "stack app ! m = bucket_of (heap app) m"
proof -
  have m: "m < length methodTable" using assms(2) by (rule methodINT_bound)
  then show "stack app ! m = bucket_of (heap app) m" using assms(1) by (simp add: stack_nth)
  from assms(1) have "length (stack app) = length methodTable" by (simp add: table_inv_def)
  with m show "bucket_for app meth = stack app ! m" using assms(2) by (simp add: bucket_for_def)
qed

text \<open>
  Claim C1, amended.  In an App built by registrations, let \<open>r1\<close> and \<open>r2\<close> be routes
  of the bucket of the request's method that both accept the request's path, \<open>r1\<close>
  with the earlier position.  Then dispatch selects a route of that bucket that accepts
  the path and whose position is at most that of \<open>r1\<close>; it never selects \<open>r2\<close>, and it
  selects \<open>r1\<close> when no route of the bucket registered before \<open>r1\<close> accepts the path.
\<close>

theorem dispatch_first_match_wins:
  assumes "run (New fl ss) cs = Inr app"
    and "methodINT (rq_method fctx) = Some m"
    and "r1 \<in> set (stack app ! m)" and "r2 \<in> set (stack app ! m)"
    and "pos (heap app ! r1) < pos (heap app ! r2)"
    and "mt (heap app ! r1) (rq_path fctx) \<noteq> None"
    and "mt (heap app ! r2) (rq_path fctx) \<noteq> None"
  shows "\<exists>s. selected (dispatch mt app fctx) = Some s \<and>
           s \<in> set (stack app ! m) \<and>
           mt (heap app ! s) (rq_path fctx) \<noteq> None \<and>
           pos (heap app ! s) \<le> pos (heap app ! r1) \<and>
           s \<noteq> r2 \<and>
           ((\<forall>q\<in>set (stack app ! m).
               pos (heap app ! q) < pos (heap app ! r1) \<longrightarrow> mt (heap app ! q) (rq_path fctx) = None)
             \<longrightarrow> s = r1)"
proof -
  let ?h = "heap app" and ?b = "stack app ! m"
  let ?P = "\<lambda>p. mt (?h ! p) (rq_path fctx) \<noteq> None"
  from assms(1) have inv: "table_inv app" by (rule table_inv_built)
  note b = bucket_for_built [OF inv assms(2)]
  have srt: "sorted_wrt (<) ?b" unfolding b(2) bucket_of_def by (rule sorted_wrt_filter) simp
  have bound: "q < length ?h" if "q \<in> set ?b" for q
    using that unfolding b(2) bucket_of_def by simp
  have ps: "pos (?h ! q) = int q + 1" if "q \<in> set ?b" for q
    using inv bound [OF that] by (simp add: table_inv_def)
  from find_sorted_least [of ?b r1 ?P, OF srt assms(3,6)] obtain s where
    s: "find ?P ?b = Some s" "s \<in> set ?b" "?P s" "s \<le> r1" "\<forall>y\<in>set ?b. y < s \<longrightarrow> \<not> ?P y"
    by blast
  have sel: "selected (dispatch mt app fctx) = Some s"
    unfolding selected_dispatch b(1) by (rule s(1))
  have le: "pos (?h ! s) \<le> pos (?h ! r1)" using s(2,4) assms(3) by (simp add: ps)
  have ne: "s \<noteq> r2" using le assms(5) by auto
  have first: "s = r1"
    if "\<forall>q\<in>set ?b. pos (?h ! q) < pos (?h ! r1) \<longrightarrow> mt (?h ! q) (rq_path fctx) = None"
  proof (rule ccontr)
    assume "s \<noteq> r1"
    with s(4) have "s < r1" by simp
    then have "pos (?h ! s) < pos (?h ! r1)" using s(2) assms(3) by (simp add: ps)
    with bspec [OF that s(2)] have "mt (?h ! s) (rq_path fctx) = None" by simp
    with s(3) show False by simp
  qed
  from sel s(2,3) le ne first show ?thesis by blast
qed


section \<open>The worked configuration, evaluated\<close>


lemmas eval_defs = demo_calls_def New_def Use_def Get_def Head_def Post_def Add_def
  register_def dropHandle_def assign_Name_def stores_def methodINT_def methodTable_def
  zeroSettings_def MethodGet_def MethodHead_def MethodPost_def enumerate_eq_zip Let_def

lemma demo_run: "run (New False []) demo_calls = Inr demo_app"
  unfolding demo_app_def by (simp add: eval_defs)

lemma demo_heap:
  "heap demo_app =
     [\<lparr>pos = 1, Path = ''/'', Method = ''USE'', Name = [], Handlers = [h_next]\<rparr>,
      \<lparr>pos = 2, Path = ''/users'', Method = ''GET'', Name = [], Handlers = [h_done]\<rparr>,
      \<lparr>pos = 3, Path = ''/api'', Method = ''USE'', Name = [], Handlers = [h_next]\<rparr>,
      \<lparr>pos = 4, Path = ''/ping'', Method = ''HEAD'', Name = [], Handlers = [h_done]\<rparr>,
      \<lparr>pos = 5, Path = ''/admin'', Method = ''USE'', Name = ''auth'', Handlers = [h_next]\<rparr>,
      \<lparr>pos = 6, Path = ''/audit'', Method = ''USE'', Name = ''auth'', Handlers = [h_next]\<rparr>,
      \<lparr>pos = 7, Path = ''/users'', Method = ''POST'', Name = [], Handlers = [h_fail]\<rparr>]"
  unfolding demo_app_def by (simp add: eval_defs)

lemma demo_stack:
  "stack demo_app =
     [[0, 1, 2, 4, 5], [0, 1, 2, 3, 4, 5], [0, 2, 4, 5, 6], [0, 2, 4, 5], [0, 2, 4, 5],
      [0, 2, 4, 5], [0, 2, 4, 5], [0, 2, 4, 5], [0, 2, 4, 5]]"
  unfolding demo_app_def by (simp add: eval_defs)

lemma demo_Routes: "Routes demo_app = [0, 1, 3, 4, 6]"
  by (simp add: Routes_def demo_heap demo_stack Routes_bucket_def Routes_step_def
      is_duplicate_def MethodGet_def)

lemma demo_Settings: "ErrorHandler (Settings demo_app) = Some defaultErrorHandler"
  unfolding demo_app_def by (simp add: eval_defs)





lemma files_run: "run (New False []) files_calls = Inr files_app"
  unfolding files_app_def by (simp add: eval_defs files_calls_def)

lemma files_heap:
  "heap files_app =
     [\<lparr>pos = 1, Path = ''/*'', Method = ''GET'', Name = [], Handlers = [h_done]\<rparr>,
      \<lparr>pos = 2, Path = ''/files/*'', Method = ''GET'', Name = [], Handlers = [h_done]\<rparr>,
      \<lparr>pos = 3, Path = ''/files/a'', Method = ''GET'', Name = [], Handlers = [h_done]\<rparr>]"
  unfolding files_app_def by (simp add: eval_defs files_calls_def)

lemma files_stack:
  "stack files_app = [[0, 1, 2], [0, 1, 2], [], [], [], [], [], [], []]"
  unfolding files_app_def by (simp add: eval_defs files_calls_def)

lemma files_Settings: "ErrorHandler (Settings files_app) = Some defaultErrorHandler"
  unfolding files_app_def by (simp add: eval_defs files_calls_def)

theorem Routes_in_registration_order_witness:
  "run (New False []) demo_calls = Inr demo_app \<and>
   Routes demo_app = [0, 1, 3, 4, 6] \<and>
   map (\<lambda>p. pos (heap demo_app ! p)) (Routes demo_app) = [1, 2, 4, 5, 7] \<and>
   sorted_wrt (<) (map (\<lambda>p. pos (heap demo_app ! p)) (Routes demo_app)) \<and>
   subseq (map ((!) (heap demo_app)) (Routes demo_app)) (heap demo_app)"
proof -
  have "map (\<lambda>p. pos (heap demo_app ! p)) (Routes demo_app) = [1, 2, 4, 5, 7]"
    by (simp add: demo_Routes demo_heap)
  with Routes_in_registration_order [of demo_app False "[]" demo_calls] demo_run demo_Routes
  show ?thesis by blast
qed

theorem Routes_USE_name_once_witness:
  "run (New False []) demo_calls = Inr demo_app \<and>
   5 < length (heap demo_app) \<and> Method (heap demo_app ! 5) = ''USE'' \<and>
   Name (heap demo_app ! 5) = ''auth'' \<and> Name (heap demo_app ! 4) = ''auth'' \<and>
   use_named (heap demo_app) ''auth'' (Routes demo_app) = [4] \<and>
   (\<exists>f. f \<le> 5 \<and>
      use_named (heap demo_app) (Name (heap demo_app ! 5)) (Routes demo_app) = [f])"
proof -
  have h: "5 < length (heap demo_app)" "Method (heap demo_app ! 5) = ''USE''"
    by (simp_all add: demo_heap)
  have "use_named (heap demo_app) ''auth'' (Routes demo_app) = [4]"
    by (simp add: use_named_def demo_Routes demo_heap)
  moreover have "Name (heap demo_app ! 5) = ''auth''" "Name (heap demo_app ! 4) = ''auth''"
    by (simp_all add: demo_heap)
  moreover from Routes_USE_name_once [OF demo_run h]
  have "\<exists>f. f \<le> 5 \<and>
      use_named (heap demo_app) (Name (heap demo_app ! 5)) (Routes demo_app) = [f]"
    by blast
  ultimately show ?thesis using demo_run h by blast
qed


theorem Routes_suppresses_derived_HEAD_witness:
  "run (New False []) demo_calls = Inr demo_app \<and>
   1 < length (heap demo_app) \<and> 3 < length (heap demo_app) \<and>
   Method (heap demo_app ! 1) = MethodGet \<and> Method (heap demo_app ! 3) = MethodHead \<and>
   1 \<in> set (stack demo_app ! 1) \<and> count_list (Routes demo_app) 1 = 1 \<and>
   3 \<in> set (stack demo_app ! 1) \<and> count_list (Routes demo_app) 3 = 1"
proof -
  have h: "1 < length (heap demo_app)" "3 < length (heap demo_app)"
    "Method (heap demo_app ! 1) = MethodGet" "Method (heap demo_app ! 3) = MethodHead"
    by (simp_all add: demo_heap MethodGet_def MethodHead_def)
  from Routes_suppresses_derived_HEAD [OF demo_run h(1)] h(3)
  have "1 \<in> set (stack demo_app ! 1) \<and> count_list (Routes demo_app) 1 = 1" by blast
  moreover from Routes_suppresses_derived_HEAD [OF demo_run h(2)] h(4)
  have "3 \<in> set (stack demo_app ! 1) \<and> count_list (Routes demo_app) 3 = 1" by blast
  ultimately show ?thesis using demo_run h by blast
qed


theorem Use_invalid_argument_fatal_witness:
  "ArgOther ''int'' \<in> set [ArgString ''/api'', ArgOther ''int'', ArgHandler h_done] \<and>
   Use (New False []) [ArgString ''/api'', ArgOther ''int'', ArgHandler h_done] =
     Inl (Fatal ''Use: Invalid Handler int'') \<and>
   run (New False []) [CallUse [ArgString ''/api'', ArgOther ''int'', ArgHandler h_done],
                       CallGet ''/users'' [h_done]] =
     Inl (Fatal ''Use: Invalid Handler int'')"
proof -
  have m: "ArgOther ''int'' \<in> set [ArgString ''/api'', ArgOther ''int'', ArgHandler h_done]"
    by simp
  from Use_invalid_argument_fatal [OF m, of "New False []" "[CallGet ''/users'' [h_done]]"]
  show ?thesis by auto
qed

theorem transport_fault_classified_witness:
  "ErrorHandler (Settings demo_app) = Some defaultErrorHandler \<and>
   classify (TransportError ''body size exceeds the given limit'') =
     \<lparr>Code = 413, Message = ''Request Entity Too Large''\<rparr> \<and>
   classify (TransportError ''unexpected EOF'') = \<lparr>Code = 400, Message = ''Bad Request''\<rparr> \<and>
   map snd (handled (server_ErrorHandler demo_app \<lparr>rq_method = ''GET'', rq_path = ''/''\<rparr>
       (ErrSmallBuffer ''small read buffer''))) =
     [ErrorPtr (Some \<lparr>Code = 431, Message = ''Request Header Fields Too Large''\<rparr>)] \<and>
   final (server_ErrorHandler demo_app \<lparr>rq_method = ''GET'', rq_path = ''/''\<rparr>
       (OpError True ''i/o timeout'')) =
     Inr \<lparr>req_method = ''GET'', req_path = ''/'', status = 408,
          headers = [''Content-Type'' \<mapsto> ''text/plain; charset=utf-8''],
          body = ''Request Timeout'', params = Map.empty, cursor = 0,
          err = ErrorPtr (Some \<lparr>Code = 408, Message = ''Request Timeout''\<rparr>)\<rparr>"
proof -
  note t = transport_fault_classified [OF demo_Settings]
  have c: "ErrRequestEntityTooLarge = \<lparr>Code = 413, Message = ''Request Entity Too Large''\<rparr>"
    "ErrBadRequest = \<lparr>Code = 400, Message = ''Bad Request''\<rparr>"
    "ErrRequestHeaderFieldsTooLarge =
       \<lparr>Code = 431, Message = ''Request Header Fields Too Large''\<rparr>"
    "ErrRequestTimeout = \<lparr>Code = 408, Message = ''Request Timeout''\<rparr>"
    by (simp_all add: ErrRequestHeaderFieldsTooLarge_def ErrRequestTimeout_def
        ErrRequestEntityTooLarge_def ErrBadRequest_def NewError_def StatusMessage_def)
  have "classify (TransportError ''body size exceeds the given limit'') =
     \<lparr>Code = 413, Message = ''Request Entity Too Large''\<rparr>"
    using t [of _ "''body size exceeds the given limit''"] by (simp add: c)
  moreover have "classify (TransportError ''unexpected EOF'') =
      \<lparr>Code = 400, Message = ''Bad Request''\<rparr>"
    using t [of _ "''unexpected EOF''"] by (simp add: c)
  moreover have "map snd (handled (server_ErrorHandler demo_app
       \<lparr>rq_method = ''GET'', rq_path = ''/''\<rparr> (ErrSmallBuffer ''small read buffer''))) =
     [ErrorPtr (Some \<lparr>Code = 431, Message = ''Request Header Fields Too Large''\<rparr>)]"
    using t [of "ErrSmallBuffer ''small read buffer''" "''small read buffer''"
        "\<lparr>rq_method = ''GET'', rq_path = ''/''\<rparr>"]
    by (simp add: c)
  moreover have "final (server_ErrorHandler demo_app \<lparr>rq_method = ''GET'', rq_path = ''/''\<rparr>
       (OpError True ''i/o timeout'')) =
     Inr \<lparr>req_method = ''GET'', req_path = ''/'', status = 408,
          headers = [''Content-Type'' \<mapsto> ''text/plain; charset=utf-8''],
          body = ''Request Timeout'', params = Map.empty, cursor = 0,
          err = ErrorPtr (Some \<lparr>Code = 408, Message = ''Request Timeout''\<rparr>)\<rparr>"
    using t [of "OpError True ''i/o timeout''" "''i/o timeout''"
        "\<lparr>rq_method = ''GET'', rq_path = ''/''\<rparr>"]
    by (simp add: c AcquireCtx_def defaultErrorHandler_def error_text_def Error_Error_def
        Ctx_Set_def Ctx_Status_def Ctx_SendString_def HeaderContentType_def
        MIMETextPlainCharsetUTF8_def)
  ultimately show ?thesis using demo_Settings by blast
qed

theorem dispatch_first_match_wins_witness:
  "run (New False []) demo_calls = Inr demo_app \<and>
   methodINT ''GET'' = Some 0 \<and>
   0 \<in> set (stack demo_app ! 0) \<and> 1 \<in> set (stack demo_app ! 0) \<and>
   pos (heap demo_app ! 0) < pos (heap demo_app ! 1) \<and>
   demo_matcher (heap demo_app ! 0) ''/users'' \<noteq> None \<and>
   demo_matcher (heap demo_app ! 1) ''/users'' \<noteq> None \<and>
   selected (dispatch demo_matcher demo_app \<lparr>rq_method = ''GET'', rq_path = ''/users''\<rparr>)
     = Some 0"
proof -
  let ?rq = "\<lparr>rq_method = ''GET'', rq_path = ''/users''\<rparr>"
  have h: "methodINT (rq_method ?rq) = Some 0"
    "0 \<in> set (stack demo_app ! 0)" "1 \<in> set (stack demo_app ! 0)"
    "pos (heap demo_app ! 0) < pos (heap demo_app ! 1)"
    "demo_matcher (heap demo_app ! 0) (rq_path ?rq) \<noteq> None"
    "demo_matcher (heap demo_app ! 1) (rq_path ?rq) \<noteq> None"
    by (simp_all add: demo_heap demo_stack demo_matcher_def methodINT_def methodTable_def)
  from dispatch_first_match_wins
    [where mt = demo_matcher and fctx = ?rq and ?r1.0 = 0 and ?r2.0 = 1, OF demo_run h]
  obtain s where
    s: "selected (dispatch demo_matcher demo_app ?rq) = Some s"
       "pos (heap demo_app ! s) \<le> pos (heap demo_app ! 0)" "s \<in> set (stack demo_app ! 0)"
    by blast
  from s(3) have "s = 0 \<or> s = 1 \<or> s = 2 \<or> s = 4 \<or> s = 5" by (simp add: demo_stack)
  with s(2) have "s = 0" by (auto simp: demo_heap)
  with s(1) h demo_run show ?thesis by simp
qed


text \<open>
  Claim C1, as stated, fails where a third route registered before both also accepts
  the path.  In the second App the routes 1 and 2 are GET routes, route 1 is registered
  before route 2 and both accept the path \<^verbatim>\<open>/files/a\<close>; the dispatch of that GET request
  selects route 0, not route 1.
\<close>

theorem dispatch_selects_R1_counterexample:
  "run (New False []) files_calls = Inr files_app \<and>
   methodINT ''GET'' = Some 0 \<and>
   1 \<in> set (stack files_app ! 0) \<and> 2 \<in> set (stack files_app ! 0) \<and>
   Method (heap files_app ! 1) = ''GET'' \<and> Method (heap files_app ! 2) = ''GET'' \<and>
   pos (heap files_app ! 1) < pos (heap files_app ! 2) \<and>
   demo_matcher (heap files_app ! 1) ''/files/a'' \<noteq> None \<and>
   demo_matcher (heap files_app ! 2) ''/files/a'' \<noteq> None \<and>
   selected (dispatch demo_matcher files_app \<lparr>rq_method = ''GET'', rq_path = ''/files/a''\<rparr>)
     = Some 0 \<and>
   selected (dispatch demo_matcher files_app \<lparr>rq_method = ''GET'', rq_path = ''/files/a''\<rparr>)
     \<noteq> Some 1"
  by (simp add: files_run files_heap files_stack files_Settings dispatch_def bucket_for_def
      AcquireCtx_def call_ErrorHandler_def selected_def demo_matcher_def methodINT_def
      methodTable_def h_done_def)

end
